theory Spec2Isabelle
  imports Complex_Main
begin

section \<open>Python values shared by the two components\<close>

text \<open>
  The exceptions that the modelled functions of \<^verbatim>\<open>bipy/toolbox/fastqc.py\<close> can raise.
  A raise is the \<open>Inl\<close> branch of a sum; an ordinary return value is \<open>Inr\<close>.
\<close>

datatype error =
  UnboundLocalError | KeyError | ValueError | IndexError | IOError | UnicodeDecodeError

text \<open>
  The file system as the functions see it. A path names nothing, or something that
  \<^verbatim>\<open>open\<close> refuses (a directory, a file without read permission), or a regular file.
  The functions open files in text mode, so what they see of a regular file is what the
  text layer delivers:
  \<^item> \<open>File s\<close>: the bytes decode in the default encoding; \<open>s\<close> is the decoded text;
  \<^item> \<open>Undecodable s\<close>: the decoder fails somewhere in the file; \<open>s\<close> is the text of the
    lines that the handle delivers before it raises \<^verbatim>\<open>UnicodeDecodeError\<close>.
  \<^verbatim>\<open>os.path.exists\<close> asks whether the path names anything. Characters are modelled
  with ordinals below 256.
\<close>

datatype node = File string | Undecodable string | Dir

type_synonym filesystem = "string \<Rightarrow> node option"

abbreviation LF :: char where "LF \<equiv> CHR 0x0A"
abbreviation CR :: char where "CR \<equiv> CHR 0x0D"
abbreviation TAB :: char where "TAB \<equiv> CHR 0x09"

text \<open>
  Iterating over an open text file yields the lines of the text. A line ends at a line
  feed, at a carriage return, or at a carriage return followed by a line feed; whichever
  it is, the line is delivered with a single line feed in its place (universal newlines).
  Only the last line may lack a terminator.
\<close>

definition after_cr :: "string \<Rightarrow> string" where
  "after_cr cs = (case cs of [] \<Rightarrow> [] | d # ds \<Rightarrow> if d = LF then ds else cs)"

function file_lines :: "string \<Rightarrow> string list" where
  "file_lines [] = []"
| "file_lines (c # cs) =
     (if c = LF then [LF] # file_lines cs
      else if c = CR then [LF] # file_lines (after_cr cs)
      else (case file_lines cs of [] \<Rightarrow> [[c]] | l # ls \<Rightarrow> (c # l) # ls))"
  by pat_completeness auto
termination
  by (relation "measure length") (auto simp: after_cr_def split: list.splits)

definition path_exists :: "filesystem \<Rightarrow> string \<Rightarrow> bool" where
  "path_exists fs p = (fs p \<noteq> None)"

text \<open>
  \<^verbatim>\<open>open(p)\<close> followed by iteration over the handle: the lines that the iteration
  yields, and how it ends, by exhaustion (\<open>None\<close>) or with an exception raised in place
  of a further line.
\<close>

definition open_lines :: "filesystem \<Rightarrow> string \<Rightarrow> error + (string list \<times> error option)" where
  "open_lines fs p =
     (case fs p of
        Some (File s) \<Rightarrow> Inr (file_lines s, None)
      | Some (Undecodable s) \<Rightarrow> Inr (file_lines s, Some UnicodeDecodeError)
      | _ \<Rightarrow> Inl IOError)"

definition ord :: "char \<Rightarrow> int" where
  "ord c = of_char c"

section \<open>FASTQ quality-encoding detection\<close>

text \<open>
  \<^verbatim>\<open>_FASTQ_RANGES\<close>: the dictionary literal, in the order its keys are written, which is
  the order \<^verbatim>\<open>list(_FASTQ_RANGES.keys())\<close> delivers them in.
\<close>

definition FASTQ_RANGES :: "(string \<times> int \<times> int) list" where
  "FASTQ_RANGES =
     [(''sanger'', 33, 73),
      (''solexa'', 59, 104),
      (''illumina_1.3+'', 64, 104),
      (''illumina_1.5+'', 66, 104),
      (''illumina_1.8+'', 33, 74)]"

text \<open>
  The local variables of \<^verbatim>\<open>detect_fastq_format\<close> that outlive a loop iteration.
  \<^verbatim>\<open>formats = kept\<close> binds a second name to the same list object, so \<^verbatim>\<open>formats\<close>
  has no value of its own: it is either still unbound or it denotes whatever \<open>kept\<close>
  currently holds.
\<close>

record frame =
  kept :: "string list"
  formats_bound :: bool

datatype flow = Continue frame | Return "string list" | Raise error

text \<open>
  \<^verbatim>\<open>for form in formats: if ...: kept.remove(form)\<close>. The list iterator is a position
  \<open>j\<close> into the list object, compared with the current length before every step; the
  body removes from the very list that is being traversed.
\<close>

function form_loop :: "int \<Rightarrow> nat \<Rightarrow> string list \<Rightarrow> error + string list" where
  "form_loop oc j ks =
     (if length ks \<le> j then Inr ks
      else (case map_of FASTQ_RANGES (ks ! j) of
              None \<Rightarrow> Inl KeyError
            | Some (lo, hi) \<Rightarrow>
                if lo > oc \<or> hi < oc then form_loop oc (Suc j) (remove1 (ks ! j) ks)
                else form_loop oc (Suc j) ks))"
  by pat_completeness auto
termination
  by (relation "measure (\<lambda>(oc, j, ks). length ks - j)") (auto simp: length_remove1)

declare form_loop.simps [simp del]

text \<open>\<^verbatim>\<open>for c in line:\<close> with the early \<^verbatim>\<open>return formats\<close>.\<close>

fun char_loop :: "string \<Rightarrow> frame \<Rightarrow> flow" where
  "char_loop [] fr = Continue fr"
| "char_loop (c # cs) fr =
     (if length (kept fr) = 1 then Return (kept fr)
      else (case form_loop (ord c) 0 (kept fr) of
              Inl e \<Rightarrow> Raise e
            | Inr ks \<Rightarrow> char_loop cs \<lparr>kept = ks, formats_bound = True\<rparr>))"

text \<open>The final \<^verbatim>\<open>return formats\<close>, which reads a name that may never have been bound.\<close>

definition return_formats :: "frame \<Rightarrow> error + string list" where
  "return_formats fr = (if formats_bound fr then Inr (kept fr) else Inl UnboundLocalError)"

text \<open>
  \<^verbatim>\<open>for i, line in enumerate(in_handle):\<close> with the counter \<^verbatim>\<open>records_read\<close>. The
  loop asks the handle for a line before its body tests the cap; when the lines are
  used up the handle either ends the loop or raises (\<open>at_end\<close>).
\<close>

fun line_loop ::
  "error option \<Rightarrow> int \<Rightarrow> nat \<Rightarrow> int \<Rightarrow> string list \<Rightarrow> frame \<Rightarrow> error + string list" where
  "line_loop at_end MAX_RECORDS i records_read [] fr =
     (case at_end of None \<Rightarrow> return_formats fr | Some e \<Rightarrow> Inl e)"
| "line_loop at_end MAX_RECORDS i records_read (line # rest) fr =
     (if records_read \<ge> MAX_RECORDS then return_formats fr
      else if i mod 4 = 3 then
        (case char_loop line fr of
           Return r \<Rightarrow> Inr r
         | Raise e \<Rightarrow> Inl e
         | Continue fr' \<Rightarrow> line_loop at_end MAX_RECORDS (Suc i) (records_read + 1) rest fr')
      else line_loop at_end MAX_RECORDS (Suc i) records_read rest fr)"

text \<open>The locals on entry: \<^verbatim>\<open>kept = list(_FASTQ_RANGES.keys())\<close>, and no \<^verbatim>\<open>formats\<close> yet.\<close>

definition entry_frame :: frame where
  "entry_frame = \<lparr>kept = map fst FASTQ_RANGES, formats_bound = False\<rparr>"

definition detect_fastq_format :: "filesystem \<Rightarrow> string \<Rightarrow> int \<Rightarrow> error + string list" where
  "detect_fastq_format fs in_file MAX_RECORDS =
     (case open_lines fs in_file of
        Inl e \<Rightarrow> Inl e
      | Inr (ls, at_end) \<Rightarrow> line_loop at_end MAX_RECORDS 0 0 ls entry_frame)"

subsection \<open>What the specification asks of the detector\<close>

text \<open>
  A scheme is consistent with a quality string when every character's ordinal lies in
  the scheme's closed range; \<open>consistent_schemes\<close> lists the registry's consistent schemes.
\<close>

definition in_range :: "int \<times> int \<Rightarrow> char \<Rightarrow> bool" where
  "in_range r c = (fst r \<le> ord c \<and> ord c \<le> snd r)"

definition consistent_schemes :: "string \<Rightarrow> string list" where
  "consistent_schemes qs = map fst (filter (\<lambda>e. list_all (in_range (snd e)) qs) FASTQ_RANGES)"

subsection \<open>The quality lines that a scan reaches\<close>

text \<open>The lines at positions congruent to 3 modulo 4, counting from position \<open>i\<close>.\<close>

fun quality_lines :: "nat \<Rightarrow> string list \<Rightarrow> string list" where
  "quality_lines i [] = []"
| "quality_lines i (l # ls) =
     (if i mod 4 = 3 then l # quality_lines (Suc i) ls else quality_lines (Suc i) ls)"

text \<open>The character loop run over a list of quality lines, one after the other.\<close>

fun quality_loop :: "string list \<Rightarrow> frame \<Rightarrow> error + string list" where
  "quality_loop [] fr = return_formats fr"
| "quality_loop (q # qs) fr =
     (case char_loop q fr of
        Return r \<Rightarrow> Inr r
      | Raise e \<Rightarrow> Inl e
      | Continue fr' \<Rightarrow> quality_loop qs fr')"

text \<open>
  A probe on the line loop: the positions of the lines on which the character loop is
  entered, in the order in which that happens.
\<close>

fun examined :: "int \<Rightarrow> nat \<Rightarrow> int \<Rightarrow> string list \<Rightarrow> frame \<Rightarrow> nat list" where
  "examined MAX_RECORDS i records_read [] fr = []"
| "examined MAX_RECORDS i records_read (line # rest) fr =
     (if records_read \<ge> MAX_RECORDS then []
      else if i mod 4 = 3 then
        i # (case char_loop line fr of
               Continue fr' \<Rightarrow> examined MAX_RECORDS (Suc i) (records_read + 1) rest fr'
             | _ \<Rightarrow> [])
      else examined MAX_RECORDS (Suc i) records_read rest fr)"

text \<open>A file system that holds one regular file.\<close>

definition single_file :: "string \<Rightarrow> string \<Rightarrow> filesystem" where
  "single_file p s = (\<lambda>q. if q = p then Some (File s) else None)"

text \<open>
  The invariant of the scan: the candidate list is never empty and holds registry names
  only.
\<close>

definition good :: "frame \<Rightarrow> bool" where
  "good fr = (kept fr \<noteq> [] \<and> set (kept fr) \<subseteq> fst ` set FASTQ_RANGES)"

subsection \<open>Sample FASTQ files\<close>

text \<open>One record whose only quality character, \<open>~\<close> (126), lies above every range.\<close>

definition fq_above_all :: string where
  "fq_above_all = ''@r1\<newline>A\<newline>+\<newline>~\<newline>''"

text \<open>One record whose only quality character is \<open>!\<close> (33).\<close>

definition fq_lowest :: string where
  "fq_lowest = ''@r1\<newline>A\<newline>+\<newline>!\<newline>''"

text \<open>One record with the quality characters \<open>;\<close> (59) and \<open>K\<close> (75).\<close>

definition fq_solexa :: string where
  "fq_solexa = ''@r1\<newline>AC\<newline>+\<newline>;K\<newline>''"

text \<open>A record cut off before its quality line.\<close>

definition fq_truncated :: string where
  "fq_truncated = ''@r1\<newline>ACGT\<newline>+\<newline>''"

text \<open>Two records of quality \<open>I\<close> (73).\<close>

definition fq_two_records :: string where
  "fq_two_records = ''@r1\<newline>A\<newline>+\<newline>I\<newline>@r2\<newline>C\<newline>+\<newline>I\<newline>''"

section \<open>Python string and path primitives used by the FastQC parser\<close>

text \<open>\<^verbatim>\<open>s.startswith(p)\<close>.\<close>

fun startswith :: "string \<Rightarrow> string \<Rightarrow> bool" where
  "startswith s [] = True"
| "startswith [] (p # ps) = False"
| "startswith (c # cs) (p # ps) = (c = p \<and> startswith cs ps)"

text \<open>\<^verbatim>\<open>s.rstrip(chars)\<close>: drops every trailing character that occurs in \<open>chars\<close>.\<close>

definition rstrip :: "string \<Rightarrow> string \<Rightarrow> string" where
  "rstrip s chars = rev (dropWhile (\<lambda>c. c \<in> set chars) (rev s))"

text \<open>
  \<^verbatim>\<open>s.split("\t")\<close>: the fields between tabs; a string without a tab is one field, and
  the result is never empty.
\<close>

fun split_tab :: "string \<Rightarrow> string list" where
  "split_tab [] = [[]]"
| "split_tab (c # cs) =
     (if c = TAB then [] # split_tab cs
      else (case split_tab cs of [] \<Rightarrow> [[c]] | f # fs \<Rightarrow> (c # f) # fs))"

text \<open>\<^verbatim>\<open>sep.join(pieces)\<close>.\<close>

fun str_join :: "string \<Rightarrow> string list \<Rightarrow> string" where
  "str_join sep [] = []"
| "str_join sep [p] = p"
| "str_join sep (p # q # ps) = p @ sep @ str_join sep (q # ps)"

text \<open>
  \<^verbatim>\<open>os.path.join\<close> of \<^verbatim>\<open>posixpath\<close>: a component that starts with a slash replaces
  what was joined so far; otherwise it is appended, after a slash unless the path so far
  is empty or already ends with one.
\<close>

definition join_step :: "string \<Rightarrow> string \<Rightarrow> string" where
  "join_step path b =
     (if startswith b ''/'' then b
      else if path = [] \<or> last path = CHR ''/'' then path @ b
      else path @ ''/'' @ b)"

definition os_path_join :: "string \<Rightarrow> string list \<Rightarrow> string" where
  "os_path_join a ps = foldl join_step a ps"

text \<open>
  \<^verbatim>\<open>d[k] = v\<close> on a dictionary that keeps insertion order: an existing key keeps its
  place and takes the new value, a new key goes to the end.
\<close>

fun dict_setitem :: "'k \<Rightarrow> 'v \<Rightarrow> ('k \<times> 'v) list \<Rightarrow> ('k \<times> 'v) list" where
  "dict_setitem k v [] = [(k, v)]"
| "dict_setitem k v ((k', v') # d) =
     (if k' = k then (k, v) # d else (k', v') # dict_setitem k v d)"

section \<open>The FastQC output parser\<close>

text \<open>The object that \<^verbatim>\<open>FastQCParser.__init__\<close> builds.\<close>

record FastQCParser =
  dir :: string
  max_seq_size :: nat
  max_overrep :: nat

definition init :: "string \<Rightarrow> FastQCParser" where
  "init base_dir = \<lparr>dir = base_dir, max_seq_size = 45, max_overrep = 20\<rparr>"

text \<open>The class attribute \<^verbatim>\<open>GRAPHS\<close>; the sizes are the decimal literals of the source.\<close>

definition GRAPHS :: "(string \<times> string \<times> rat) list" where
  "GRAPHS =
     [(''per_base_quality.png'', [], 1),
      (''per_base_sequence_content.png'', [], 85 / 100),
      (''per_sequence_gc_content.png'', [], 85 / 100),
      (''kmer_profiles.png'', [], 85 / 100),
      (''duplication_levels.png'', [], 85 / 100),
      (''per_bases_n_content.png'', [], 85 / 100),
      (''per_sequence_quality.png'', [], 1),
      (''sequence_length_distribution.png'', [], 1)]"

text \<open>\<^verbatim>\<open>get_fastqc_graphs\<close>: the loop over \<^verbatim>\<open>GRAPHS\<close> with the list \<^verbatim>\<open>final_graphs\<close>.\<close>

fun graphs_loop ::
  "filesystem \<Rightarrow> string \<Rightarrow> (string \<times> string \<times> rat) list \<Rightarrow> (string \<times> string \<times> rat) list
     \<Rightarrow> (string \<times> string \<times> rat) list" where
  "graphs_loop fs d [] final_graphs = final_graphs"
| "graphs_loop fs d ((f, caption, size') # rest) final_graphs =
     (let full_f = os_path_join d [''Images'', f]
      in if path_exists fs full_f
         then graphs_loop fs d rest (final_graphs @ [(full_f, caption, size')])
         else graphs_loop fs d rest final_graphs)"

definition get_fastqc_graphs :: "FastQCParser \<Rightarrow> filesystem \<Rightarrow> (string \<times> string \<times> rat) list" where
  "get_fastqc_graphs self fs = graphs_loop fs (dir self) GRAPHS []"

text \<open>\<^verbatim>\<open>_splitseq\<close>: the loop over the characters with \<^verbatim>\<open>pieces\<close> and \<^verbatim>\<open>cur_piece\<close>.\<close>

fun splitseq_loop :: "nat \<Rightarrow> string \<Rightarrow> string list \<Rightarrow> string \<Rightarrow> string list" where
  "splitseq_loop m [] pieces cur_piece = pieces @ [cur_piece]"
| "splitseq_loop m (s # seq) pieces cur_piece =
     (if length cur_piece \<ge> m then splitseq_loop m seq (pieces @ [cur_piece]) [s]
      else splitseq_loop m seq pieces (cur_piece @ [s]))"

definition splitseq_pieces :: "FastQCParser \<Rightarrow> string \<Rightarrow> string list" where
  "splitseq_pieces self seq = splitseq_loop (max_seq_size self) seq [] []"

definition splitseq :: "FastQCParser \<Rightarrow> string \<Rightarrow> string" where
  "splitseq self seq = str_join '' '' (splitseq_pieces self seq)"

text \<open>
  \<^verbatim>\<open>_fastqc_data_section\<close>: the loop over the lines of the data file with the flag
  \<^verbatim>\<open>in_section\<close> and the list \<^verbatim>\<open>out\<close>; \<^verbatim>\<open>break\<close> leaves with \<^verbatim>\<open>out\<close> as it is,
  and when the lines are used up the handle either ends the loop or raises (\<open>at_end\<close>).
\<close>

fun section_loop ::
  "error option \<Rightarrow> string \<Rightarrow> string list \<Rightarrow> bool \<Rightarrow> string list \<Rightarrow> error + string list" where
  "section_loop at_end section_name [] in_section out =
     (case at_end of None \<Rightarrow> Inr out | Some e \<Rightarrow> Inl e)"
| "section_loop at_end section_name (line # rest) in_section out =
     (if startswith line (''>>'' @ section_name)
      then section_loop at_end section_name rest True out
      else if in_section then
        (if startswith line ''>>END'' then Inr out
         else section_loop at_end section_name rest in_section (out @ [rstrip line [CR, LF]]))
      else section_loop at_end section_name rest in_section out)"

definition fastqc_data_section :: "FastQCParser \<Rightarrow> filesystem \<Rightarrow> string \<Rightarrow> error + string list" where
  "fastqc_data_section self fs section_name =
     (let data_file = os_path_join (dir self) [''fastqc_data.txt'']
      in if path_exists fs data_file
         then (case open_lines fs data_file of
                 Inl e \<Rightarrow> Inl e
               | Inr (ls, at_end) \<Rightarrow> section_loop at_end section_name ls False [])
         else Inr [])"

text \<open>
  \<^verbatim>\<open>get_fastqc_summary\<close>. The escaping function \<^verbatim>\<open>safe_latex\<close> lives in
  \<^verbatim>\<open>bipy.toolbox.reporting\<close>, which is not part of the sources at hand; it is a parameter.
  The first loop unpacks exactly two values and raises \<^verbatim>\<open>ValueError\<close> on a line that
  gives fewer.
\<close>

fun stats_loop ::
  "(string \<Rightarrow> string) \<Rightarrow> string list \<Rightarrow> (string \<times> string) list \<Rightarrow> error + (string \<times> string) list" where
  "stats_loop safe_latex [] stats = Inr stats"
| "stats_loop safe_latex (stat_line # rest) stats =
     (case map safe_latex (take 2 (split_tab stat_line)) of
        [k, v] \<Rightarrow> stats_loop safe_latex rest (dict_setitem k v stats)
      | _ \<Rightarrow> Inl ValueError)"

fun overrep_loop ::
  "FastQCParser \<Rightarrow> (string \<Rightarrow> string) \<Rightarrow> string list \<Rightarrow> string list list \<Rightarrow> error + string list list" where
  "overrep_loop self safe_latex [] over_rep = Inr over_rep"
| "overrep_loop self safe_latex (line # rest) over_rep =
     (case map safe_latex (split_tab line) of
        [] \<Rightarrow> Inl IndexError
      | p # ps \<Rightarrow> overrep_loop self safe_latex rest (over_rep @ [splitseq self p # ps]))"

definition get_fastqc_summary ::
  "FastQCParser \<Rightarrow> (string \<Rightarrow> string) \<Rightarrow> filesystem
     \<Rightarrow> error + ((string \<times> string) list \<times> string list list)" where
  "get_fastqc_summary self safe_latex fs =
     (case fastqc_data_section self fs ''Basic Statistics'' of
        Inl e \<Rightarrow> Inl e
      | Inr sec \<Rightarrow>
     (case stats_loop safe_latex (drop 1 sec) [] of
        Inl e \<Rightarrow> Inl e
      | Inr stats \<Rightarrow>
     (case fastqc_data_section self fs ''Overrepresented sequences'' of
        Inl e \<Rightarrow> Inl e
      | Inr sec' \<Rightarrow>
     (case overrep_loop self safe_latex (drop 1 sec') [] of
        Inl e \<Rightarrow> Inl e
      | Inr over_rep \<Rightarrow> Inr (stats, take (max_overrep self) over_rep)))))"

subsection \<open>What the specification asks of the parser\<close>

text \<open>
  The name and the value of a statistics row: the first two tab-separated fields, escaped.
\<close>

definition name_value :: "(string \<Rightarrow> string) \<Rightarrow> string \<Rightarrow> string \<times> string" where
  "name_value safe_latex row = (safe_latex (split_tab row ! 0), safe_latex (split_tab row ! 1))"

text \<open>
  The record of an overrepresented-sequence row: every field escaped, the first one
  wrapped.
\<close>

definition overrep_record :: "FastQCParser \<Rightarrow> (string \<Rightarrow> string) \<Rightarrow> string \<Rightarrow> string list" where
  "overrep_record self safe_latex row =
     splitseq self (safe_latex (hd (split_tab row))) # map safe_latex (tl (split_tab row))"

text \<open>Storing a (name, value) pair, so that a run of stores is a fold.\<close>

fun dict_put :: "('k \<times> 'v) list \<Rightarrow> 'k \<times> 'v \<Rightarrow> ('k \<times> 'v) list" where
  "dict_put d (k, v) = dict_setitem k v d"

subsection \<open>Sample FastQC output\<close>

text \<open>A data file in which the start marker of a section occurs again inside the section.\<close>

definition data_repeated_marker :: string where
  "data_repeated_marker =
     ''>>Basic Statistics\<newline>Filename\<newline>>>Basic Statistics\<newline>Encoding\<newline>>>END_MODULE\<newline>''"

text \<open>A data file with one block, a header line and the row \<open>Total Sequences\<close>, \<open>1000\<close>.\<close>

definition data_total_sequences :: string where
  "data_total_sequences =
     ''>>Basic Statistics'' @ [TAB] @ ''pass\<newline>#Measure'' @ [TAB] @ ''Value\<newline>Total Sequences''
       @ [TAB] @ ''1000\<newline>>>END_MODULE\<newline>''"

text \<open>The same block with a row that has a name and no value.\<close>

definition data_row_without_tab :: string where
  "data_row_without_tab =
     ''>>Basic Statistics'' @ [TAB] @ ''pass\<newline>#Measure'' @ [TAB] @ ''Value\<newline>Total Sequences\<newline>>>END_MODULE\<newline>''"

text \<open>The block with the row directly after the start marker, without a header line.\<close>

definition data_without_header :: string where
  "data_without_header =
     ''>>Basic Statistics'' @ [TAB] @ ''pass\<newline>Total Sequences'' @ [TAB] @ ''1000\<newline>>>END_MODULE\<newline>''"


text \<open>An output directory that holds three of the eight graphs.\<close>

definition three_images :: filesystem where
  "three_images = (\<lambda>p. if p \<in> {''out/Images/per_sequence_quality.png'',
       ''out/Images/per_base_quality.png'', ''out/Images/kmer_profiles.png''}
     then Some (File []) else None)"

section \<open>Properties of the detector\<close>

subsection \<open>The candidate list under removal during traversal\<close>

lemma keys_lookup:
  "k \<in> fst ` set FASTQ_RANGES \<Longrightarrow> \<exists>lo hi. map_of FASTQ_RANGES k = Some (lo, hi)"
  by (metis map_of_eq_None_iff not_Some_eq surj_pair)

text \<open>
  A traversal from position \<open>j\<close> never raises, only removes, and leaves at least the
  \<open>j\<close> entries that it has already passed.
\<close>

lemma form_loop_ok:
  "set ks \<subseteq> fst ` set FASTQ_RANGES \<Longrightarrow>
   \<exists>r. form_loop oc j ks = Inr r \<and> set r \<subseteq> set ks \<and> min j (length ks) \<le> length r"
proof (induction oc j ks rule: form_loop.induct)
  case (1 oc j ks)
  show ?case
  proof (cases "length ks \<le> j")
    case True
    then show ?thesis by (simp add: form_loop.simps)
  next
    case False
    then have mem: "ks ! j \<in> set ks" by simp
    with "1.prems" obtain lo hi where look: "map_of FASTQ_RANGES (ks ! j) = Some (lo, hi)"
      using keys_lookup by blast
    show ?thesis
    proof (cases "lo > oc \<or> hi < oc")
      case True
      have sub: "set (remove1 (ks ! j) ks) \<subseteq> fst ` set FASTQ_RANGES"
        using "1.prems" set_remove1_subset by fastforce
      from "1.IH"(1)[OF False look refl True sub]
      obtain r where r: "form_loop oc (Suc j) (remove1 (ks ! j) ks) = Inr r"
        "set r \<subseteq> set (remove1 (ks ! j) ks)"
        "min (Suc j) (length (remove1 (ks ! j) ks)) \<le> length r" by blast
      have "form_loop oc j ks = Inr r"
        using False look True r(1) by (subst form_loop.simps) simp
      moreover have "set r \<subseteq> set ks" using r(2) set_remove1_subset by fastforce
      moreover have "min j (length ks) \<le> length r"
        using r(3) False mem by (simp add: length_remove1)
      ultimately show ?thesis by blast
    next
      case nout: False
      from "1.IH"(2)[OF False look refl nout "1.prems"]
      obtain r where r: "form_loop oc (Suc j) ks = Inr r" "set r \<subseteq> set ks"
        "min (Suc j) (length ks) \<le> length r" by blast
      have "form_loop oc j ks = Inr r"
        using False look nout r(1) by (subst form_loop.simps) simp
      then show ?thesis using r(2,3) by auto
    qed
  qed
qed

lemma form_loop_first:
  assumes sub: "set ks \<subseteq> fst ` set FASTQ_RANGES" and len: "2 \<le> length ks"
  shows "\<exists>r. form_loop oc 0 ks = Inr r \<and> set r \<subseteq> set ks \<and> r \<noteq> []"
proof -
  from len have mem: "ks ! 0 \<in> set ks" by (cases ks) auto
  with sub obtain lo hi where look: "map_of FASTQ_RANGES (ks ! 0) = Some (lo, hi)"
    by (metis map_of_eq_None_iff not_Some_eq surj_pair subsetD)
  define ks' where "ks' = (if lo > oc \<or> hi < oc then remove1 (ks ! 0) ks else ks)"
  from len have pos: "\<not> length ks \<le> 0" by (cases ks) auto
  have step: "form_loop oc 0 ks = form_loop oc (Suc 0) ks'"
    using pos look by (subst form_loop.simps) (simp add: ks'_def)
  have sub': "set ks' \<subseteq> set ks"
    by (simp add: ks'_def set_remove1_subset)
  have len': "1 \<le> length ks'"
  proof -
    have "length (remove1 (ks ! 0) ks) = length ks - 1"
      using mem by (simp add: length_remove1)
    with len show ?thesis unfolding ks'_def by (cases "lo > oc \<or> hi < oc") simp_all
  qed
  from form_loop_ok [of ks' oc "Suc 0"] sub sub'
  obtain r where r: "form_loop oc (Suc 0) ks' = Inr r" "set r \<subseteq> set ks'"
    "min (Suc 0) (length ks') \<le> length r" by blast
  from r(3) len' have "r \<noteq> []" by auto
  with step r(1,2) sub' show ?thesis by auto
qed

lemma char_loop_good:
  "good fr \<Longrightarrow>
   (case char_loop line fr of
      Continue fr' \<Rightarrow> good fr' \<and> (formats_bound fr \<or> line \<noteq> [] \<longrightarrow> formats_bound fr')
    | Return r \<Rightarrow> r \<noteq> [] \<and> set r \<subseteq> fst ` set FASTQ_RANGES
    | Raise e \<Rightarrow> False)"
proof (induction line arbitrary: fr)
  case Nil
  then show ?case by simp
next
  case (Cons c cs)
  show ?case
  proof (cases "length (kept fr) = 1")
    case True
    with Cons.prems show ?thesis by (simp add: good_def)
  next
    case False
    with Cons.prems have "2 \<le> length (kept fr)"
      by (cases "kept fr") (auto simp: good_def Suc_le_eq)
    with Cons.prems form_loop_first [of "kept fr" "ord c"]
    obtain r where r: "form_loop (ord c) 0 (kept fr) = Inr r" "set r \<subseteq> set (kept fr)" "r \<noteq> []"
      by (auto simp: good_def)
    let ?fr = "\<lparr>kept = r, formats_bound = True\<rparr>"
    have g: "good ?fr" using r Cons.prems by (auto simp: good_def)
    have eq: "char_loop (c # cs) fr = char_loop cs ?fr" using False r(1) by simp
    from Cons.IH [OF g] show ?thesis
      unfolding eq by (auto split: flow.splits)
  qed
qed

lemma quality_loop_good:
  "good fr \<Longrightarrow>
   quality_loop qs fr = Inl UnboundLocalError \<and> \<not> formats_bound fr \<and> (qs = [] \<or> [] \<in> set qs) \<or>
   (\<exists>r. quality_loop qs fr = Inr r \<and> r \<noteq> [] \<and> set r \<subseteq> fst ` set FASTQ_RANGES)"
proof (induction qs arbitrary: fr)
  case Nil
  then show ?case by (auto simp: return_formats_def good_def)
next
  case (Cons q qs)
  from char_loop_good [OF Cons.prems, of q]
  show ?case
  proof (cases "char_loop q fr")
    case (Continue fr')
    with char_loop_good [OF Cons.prems, of q]
    have g: "good fr'" and b: "formats_bound fr \<or> q \<noteq> [] \<longrightarrow> formats_bound fr'" by auto
    from Cons.IH [OF g] b Continue show ?thesis by auto
  next
    case (Return r)
    with char_loop_good [OF Cons.prems, of q] show ?thesis by auto
  next
    case (Raise e)
    with char_loop_good [OF Cons.prems, of q] show ?thesis by auto
  qed
qed

lemma line_loop_quality:
  "line_loop None M i rr ls fr = quality_loop (take (nat (M - rr)) (quality_lines i ls)) fr"
proof (induction ls arbitrary: i rr fr)
  case Nil
  then show ?case by simp
next
  case (Cons l ls)
  show ?case
  proof (cases "rr \<ge> M")
    case True
    then show ?thesis by simp
  next
    case False
    then have n: "nat (M - rr) = Suc (nat (M - (rr + 1)))" by simp
    show ?thesis using False Cons.IH
      by (cases "i mod 4 = 3") (simp_all add: n split: flow.splits)
  qed
qed

lemma length_quality_lines: "length (quality_lines i ls) = (i mod 4 + length ls) div 4"
proof (induction ls arbitrary: i)
  case Nil
  then show ?case by simp
next
  case (Cons l ls)
  have m: "Suc i mod 4 = (if i mod 4 = 3 then 0 else Suc (i mod 4))" by presburger
  show ?case using Cons.IH [of "Suc i"] by (auto simp: m) 
qed

lemma set_quality_lines: "set (quality_lines i ls) \<subseteq> set ls"
  by (induction ls arbitrary: i) auto

text \<open>All three line endings end a line and are delivered as a line feed.\<close>

lemma file_lines_universal_newlines:
  "file_lines (''a'' @ [CR, LF] @ ''b'' @ [CR] @ ''c'' @ [LF] @ ''d'') =
     [''a\<newline>'', ''b\<newline>'', ''c\<newline>'', ''d'']"
  by (simp add: after_cr_def)

lemma file_lines_nonempty: "[] \<notin> set (file_lines s)"
  by (induction s rule: file_lines.induct) (auto split: list.splits)

text \<open>
  Once the candidate list is a singleton it is what the scan returns, whatever follows.
\<close>

lemma quality_loop_singleton:
  "length (kept fr) = 1 \<Longrightarrow> formats_bound fr \<Longrightarrow> quality_loop qs fr = Inr (kept fr)"
proof (induction qs)
  case Nil
  then show ?case by (simp add: return_formats_def)
next
  case (Cons q qs)
  then show ?case by (cases q) simp_all
qed

lemma examined_prefix:
  "\<exists>n. n \<le> nat (M - rr) \<and>
       examined M i rr ls fr = take n (filter (\<lambda>k. k mod 4 = 3) [i ..< i + length ls])"
proof (induction ls arbitrary: i rr fr)
  case Nil
  show ?case by (rule exI [of _ 0]) simp
next
  case (Cons l ls)
  have upt: "[i ..< i + length (l # ls)] = i # [Suc i ..< Suc i + length ls]"
    using upt_conv_Cons [of i "i + Suc (length ls)"] by (simp del: upt_Suc)
  show ?case
  proof (cases "rr \<ge> M")
    case True
    then show ?thesis by (intro exI [of _ 0]) simp
  next
    case False
    show ?thesis
    proof (cases "i mod 4 = 3")
      case q: True
      show ?thesis
      proof (cases "char_loop l fr")
        case (Continue fr')
        from Cons.IH [of "rr + 1" "Suc i" fr'] obtain n where
          n: "n \<le> nat (M - (rr + 1))"
             "examined M (Suc i) (rr + 1) ls fr' = take n (filter (\<lambda>k. k mod 4 = 3) [Suc i ..< Suc i + length ls])"
          by blast
        have "Suc n \<le> nat (M - rr)" using n(1) False by simp
        moreover have "examined M i rr (l # ls) fr = take (Suc n) (filter (\<lambda>k. k mod 4 = 3) [i ..< i + length (l # ls)])"
          unfolding upt using False q Continue n(2) by simp
        ultimately show ?thesis by blast
      next
        case (Return r)
        have "Suc 0 \<le> nat (M - rr)" using False by simp
        moreover have "examined M i rr (l # ls) fr = take (Suc 0) (filter (\<lambda>k. k mod 4 = 3) [i ..< i + length (l # ls)])"
          unfolding upt using False q Return by simp
        ultimately show ?thesis by blast
      next
        case (Raise e)
        have "Suc 0 \<le> nat (M - rr)" using False by simp
        moreover have "examined M i rr (l # ls) fr = take (Suc 0) (filter (\<lambda>k. k mod 4 = 3) [i ..< i + length (l # ls)])"
          unfolding upt using False q Raise by simp
        ultimately show ?thesis by blast
      qed
    next
      case nq: False
      from Cons.IH [of rr "Suc i" fr] obtain n where
        n: "n \<le> nat (M - rr)"
           "examined M (Suc i) rr ls fr = take n (filter (\<lambda>k. k mod 4 = 3) [Suc i ..< Suc i + length ls])"
        by blast
      have "examined M i rr (l # ls) fr = take n (filter (\<lambda>k. k mod 4 = 3) [i ..< i + length (l # ls)])"
        unfolding upt using False nq n(2) by simp
      with n(1) show ?thesis by blast
    qed
  qed
qed

lemma length_filter_mod4: "length (filter (\<lambda>k. k mod 4 = 3) [0 ..< n]) = n div 4"
proof (induction n)
  case 0
  then show ?case by simp
next
  case (Suc n)
  have "Suc n div 4 = n div 4 + (if n mod 4 = 3 then 1 else 0)" by presburger
  with Suc show ?case by simp
qed

lemma good_entry_frame: "good entry_frame"
  by (simp add: good_def entry_frame_def FASTQ_RANGES_def)

lemma detect_fastq_format_file:
  "fs in_file = Some (File s) \<Longrightarrow>
   detect_fastq_format fs in_file M =
     quality_loop (take (nat M) (quality_lines 0 (file_lines s))) entry_frame"
  by (simp add: detect_fastq_format_def open_lines_def line_loop_quality)

text \<open>
  Whatever the handle does at its end, a value that the line loop returns is a non-empty
  list of registry names.
\<close>

lemma line_loop_good:
  "good fr \<Longrightarrow> line_loop at_end M i rr ls fr = Inr r \<Longrightarrow>
   r \<noteq> [] \<and> set r \<subseteq> fst ` set FASTQ_RANGES"
proof (induction ls arbitrary: i rr fr)
  case Nil
  then show ?case
    by (auto simp: return_formats_def good_def split: option.splits if_splits)
next
  case (Cons l ls)
  show ?case
  proof (cases "rr \<ge> M")
    case True
    with Cons.prems show ?thesis
      by (auto simp: return_formats_def good_def split: if_splits)
  next
    case False
    show ?thesis
    proof (cases "i mod 4 = 3")
      case q: True
      show ?thesis
      proof (cases "char_loop l fr")
        case (Continue fr')
        with char_loop_good [OF Cons.prems(1), of l] have "good fr'" by simp
        moreover from Cons.prems(2) False q Continue
        have "line_loop at_end M (Suc i) (rr + 1) ls fr' = Inr r" by simp
        ultimately show ?thesis by (rule Cons.IH)
      next
        case (Return r')
        with char_loop_good [OF Cons.prems(1), of l] Cons.prems(2) False q
        show ?thesis by simp
      next
        case (Raise e)
        with Cons.prems(2) False q show ?thesis by simp
      qed
    next
      case nq: False
      from Cons.prems(2) False nq have "line_loop at_end M (Suc i) rr ls fr = Inr r" by simp
      with Cons.prems(1) show ?thesis by (rule Cons.IH)
    qed
  qed
qed

lemma detect_fastq_format_good:
  "detect_fastq_format fs in_file M = Inr r \<Longrightarrow> r \<noteq> [] \<and> set r \<subseteq> fst ` set FASTQ_RANGES"
  using line_loop_good [OF good_entry_frame]
  by (auto simp: detect_fastq_format_def open_lines_def split: option.splits node.splits)

text \<open>
  On a file that stops decoding after its first record the scan ends with the handle's
  exception, not with a value.
\<close>

lemma detect_fastq_format_undecodable:
  "detect_fastq_format (\<lambda>p. Some (Undecodable ''@r1\<newline>A\<newline>+\<newline>I\<newline>'')) in_file 1000000
     = Inl UnicodeDecodeError"
  by (simp add: detect_fastq_format_def open_lines_def FASTQ_RANGES_def form_loop.simps ord_def
      entry_frame_def)

lemmas detect_eval = detect_fastq_format_def single_file_def open_lines_def FASTQ_RANGES_def
  form_loop.simps ord_def entry_frame_def return_formats_def consistent_schemes_def in_range_def
  fq_above_all_def fq_lowest_def fq_solexa_def fq_truncated_def fq_two_records_def

subsection \<open>The claims about the detector\<close>

text \<open>
  C1, counterexample. The file \<open>fq_above_all\<close> has the quality character \<open>~\<close>, which no
  registry scheme admits, so the observed characters eliminate all five schemes. The
  detector has no outcome for that: it returns an ordinary list that names a scheme.
\<close>

theorem detect_fastq_format_undetermined_counterexample:
  "consistent_schemes ''~'' = [] \<and>
   detect_fastq_format (single_file ''reads.fq'' fq_above_all) ''reads.fq'' 1000000
     = Inr [''illumina_1.5+'']"
  by (simp add: detect_eval)

text \<open>
  C1, as amended. The detector has no undetermined outcome; what it never does is return
  an empty collection. On every file system and path, a value that it returns is a
  non-empty list of registry scheme names. It does return a value whenever the path
  names a regular file whose content decodes as text (\<open>File s\<close>), the text has a quality
  line to scan (four lines or more) and the cap is at least one, also when the quality
  characters lie outside every range. A file that does not decode is not covered by the
  second part: there the handle raises \<^verbatim>\<open>UnicodeDecodeError\<close> unless the scan has
  returned before.
\<close>

theorem detect_fastq_format_never_empty:
  "(detect_fastq_format fs in_file M = Inr r \<longrightarrow> r \<noteq> [] \<and> set r \<subseteq> fst ` set FASTQ_RANGES) \<and>
   (fs in_file = Some (File s) \<and> 4 \<le> length (file_lines s) \<and> 1 \<le> M \<longrightarrow>
      (\<exists>r'. detect_fastq_format fs in_file M = Inr r'))"
proof -
  have first: "r \<noteq> [] \<and> set r \<subseteq> fst ` set FASTQ_RANGES"
    if ret: "detect_fastq_format fs in_file M = Inr r"
    using ret by (rule detect_fastq_format_good)
  have second: "\<exists>r'. detect_fastq_format fs in_file M = Inr r'"
    if h: "fs in_file = Some (File s) \<and> 4 \<le> length (file_lines s) \<and> 1 \<le> M"
  proof -
    let ?qs = "take (nat M) (quality_lines 0 (file_lines s))"
    have "length ?qs = min (nat M) (length (file_lines s) div 4)"
      by (simp add: length_quality_lines)
    moreover from h have "1 \<le> M" by blast
    then have "1 \<le> nat M" by linarith
    moreover from h have "4 \<le> length (file_lines s)" by blast
    then have "1 \<le> length (file_lines s) div 4" by linarith
    ultimately have ne: "?qs \<noteq> []" by auto
    have "set ?qs \<subseteq> set (file_lines s)"
      using set_take_subset set_quality_lines by fast
    then have nn: "[] \<notin> set ?qs" using file_lines_nonempty by blast
    from quality_loop_good [OF good_entry_frame, of ?qs] ne nn h
    show ?thesis by (auto simp: detect_fastq_format_file)
  qed
  from first second show ?thesis by blast
qed

theorem detect_fastq_format_never_empty_witness:
  "single_file ''reads.fq'' fq_above_all ''reads.fq'' = Some (File fq_above_all) \<and>
   4 \<le> length (file_lines fq_above_all) \<and> (1::int) \<le> 1000000 \<and>
   detect_fastq_format (single_file ''reads.fq'' fq_above_all) ''reads.fq'' 1000000
     = Inr [''illumina_1.5+''] \<and>
   [''illumina_1.5+''] \<noteq> [] \<and> set [''illumina_1.5+''] \<subseteq> fst ` set FASTQ_RANGES"
proof -
  have h: "single_file ''reads.fq'' fq_above_all ''reads.fq'' = Some (File fq_above_all) \<and>
    4 \<le> length (file_lines fq_above_all) \<and> (1::int) \<le> 1000000"
    by (simp add: single_file_def fq_above_all_def)
  have e: "detect_fastq_format (single_file ''reads.fq'' fq_above_all) ''reads.fq'' 1000000
     = Inr [''illumina_1.5+'']"
    by (simp add: detect_eval)
  from detect_fastq_format_never_empty
    [of "single_file ''reads.fq'' fq_above_all" "''reads.fq''" 1000000 "[''illumina_1.5+'']" fq_above_all]
    h e show ?thesis by blast
qed

text \<open>
  C2, the code at a failing input. The quality character \<open>!\<close> is consistent with
  exactly \<open>sanger\<close> and \<open>illumina_1.8+\<close>. The traversal removes entries from the list
  it walks, so every removal makes it skip the next entry, and it also scans the newline
  that ends the quality line; what is returned is \<open>illumina_1.3+\<close>, whose range starts
  at 64.
\<close>

theorem detect_fastq_format_not_consistent_set:
  "detect_fastq_format (single_file ''reads.fq'' fq_lowest) ''reads.fq'' 1000000
     = Inr [''illumina_1.3+''] \<and>
   consistent_schemes ''!'' = [''sanger'', ''illumina_1.8+''] \<and>
   consistent_schemes ''!\<newline>'' = []"
  by (simp add: detect_eval)

text \<open>
  C3, the code at a failing input. The quality characters \<open>;\<close> and \<open>K\<close> are
  consistent with \<open>solexa\<close> and with no other scheme, and the detector returns the
  singleton \<open>illumina_1.5+\<close>.
\<close>

theorem detect_fastq_format_wrong_singleton:
  "detect_fastq_format (single_file ''reads.fq'' fq_solexa) ''reads.fq'' 1000000
     = Inr [''illumina_1.5+''] \<and>
   consistent_schemes '';K'' = [''solexa'']"
  by (simp add: detect_eval)

text \<open>
  C4, the code at failing inputs. On an empty file, and on a file that ends before its
  first quality line, no character is ever scanned, \<^verbatim>\<open>formats\<close> is never bound, and
  the final \<^verbatim>\<open>return formats\<close> raises.
\<close>

theorem detect_fastq_format_raises_on_short_file:
  "detect_fastq_format (single_file ''reads.fq'' []) ''reads.fq'' 1000000 = Inl UnboundLocalError \<and>
   detect_fastq_format (single_file ''reads.fq'' fq_truncated) ''reads.fq'' 1000000
     = Inl UnboundLocalError"
  by (simp add: detect_eval)

text \<open>
  C5. For every file and every cap, the result of the detector is the result of running
  the character loop over the first \<open>MAX_RECORDS\<close> lines at positions congruent to 3
  modulo 4 and over nothing else. The lines on which the character loop is entered are an
  initial stretch of those positions, in order: each is congruent to 3 modulo 4 and lies
  within the file, and there are at most \<open>MAX_RECORDS\<close> of them and at most one per four
  lines of the file.
\<close>

theorem detect_fastq_format_scan_bound:
  "fs in_file = Some (File s) \<Longrightarrow>
   detect_fastq_format fs in_file M =
     quality_loop (take (nat M) (quality_lines 0 (file_lines s))) entry_frame \<and>
   (\<exists>n\<le>nat M. examined M 0 0 (file_lines s) entry_frame =
      take n (filter (\<lambda>k. k mod 4 = 3) [0 ..< length (file_lines s)])) \<and>
   (\<forall>i \<in> set (examined M 0 0 (file_lines s) entry_frame).
      i mod 4 = 3 \<and> i < length (file_lines s)) \<and>
   length (examined M 0 0 (file_lines s) entry_frame) \<le> nat M \<and>
   length (examined M 0 0 (file_lines s) entry_frame) \<le> length (file_lines s) div 4"
proof -
  assume f: "fs in_file = Some (File s)"
  let ?ls = "file_lines s"
  let ?ex = "examined M 0 0 ?ls entry_frame"
  let ?pos = "filter (\<lambda>k. k mod 4 = 3) [0 ..< length ?ls]"
  from examined_prefix [of M 0 0 ?ls entry_frame]
  obtain n where n: "n \<le> nat M" "?ex = take n ?pos" by auto
  have sub: "set ?ex \<subseteq> set ?pos" unfolding n(2) by (rule set_take_subset)
  have a: "\<forall>i \<in> set ?ex. i mod 4 = 3 \<and> i < length ?ls"
    using sub by auto
  have b: "length ?ex \<le> nat M" using n by simp
  have c: "length ?ex \<le> length ?ls div 4"
    unfolding n(2) by (simp add: length_filter_mod4)
  have d: "detect_fastq_format fs in_file M =
     quality_loop (take (nat M) (quality_lines 0 ?ls)) entry_frame"
    using f by (rule detect_fastq_format_file)
  from d n a b c show ?thesis by blast
qed

theorem detect_fastq_format_scan_bound_witness:
  "single_file ''reads.fq'' fq_two_records ''reads.fq'' = Some (File fq_two_records) \<and>
   examined 1 0 0 (file_lines fq_two_records) entry_frame = [3] \<and>
   length (file_lines fq_two_records) = 8 \<and>
   detect_fastq_format (single_file ''reads.fq'' fq_two_records) ''reads.fq'' 1 =
     quality_loop (take (nat 1) (quality_lines 0 (file_lines fq_two_records))) entry_frame"
proof -
  have f: "single_file ''reads.fq'' fq_two_records ''reads.fq'' = Some (File fq_two_records)"
    by (simp add: single_file_def)
  have e: "examined 1 0 0 (file_lines fq_two_records) entry_frame = [3]"
    by (simp add: detect_eval)
  have l: "length (file_lines fq_two_records) = 8"
    by (simp add: fq_two_records_def)
  from detect_fastq_format_scan_bound
    [of "single_file ''reads.fq'' fq_two_records" "''reads.fq''" fq_two_records 1] f e l
  show ?thesis by blast
qed

section \<open>Properties of the parser\<close>

subsection \<open>Wrapping, joining and splitting\<close>

lemma splitseq_loop_concat:
  "concat (splitseq_loop m seq pieces cur) = concat pieces @ cur @ seq"
  by (induction seq arbitrary: pieces cur) auto

lemma splitseq_loop_bound:
  "0 < m \<Longrightarrow> \<forall>p \<in> set pieces. length p \<le> m \<Longrightarrow> length cur \<le> m \<Longrightarrow>
   \<forall>p \<in> set (splitseq_loop m seq pieces cur). length p \<le> m"
proof (induction seq arbitrary: pieces cur)
  case Nil
  then show ?case by auto
next
  case (Cons s seq)
  show ?case
  proof (cases "length cur \<ge> m")
    case True
    have "\<forall>p \<in> set (splitseq_loop m seq (pieces @ [cur]) [s]). length p \<le> m"
      using Cons.prems by (intro Cons.IH) auto
    with True show ?thesis by simp
  next
    case False
    have "\<forall>p \<in> set (splitseq_loop m seq pieces (cur @ [s])). length p \<le> m"
      using Cons.prems False by (intro Cons.IH) auto
    with False show ?thesis by simp
  qed
qed

lemma splitseq_pieces_concat: "concat (splitseq_pieces self seq) = seq"
  by (simp add: splitseq_pieces_def splitseq_loop_concat)

lemma splitseq_pieces_bound:
  "p \<in> set (splitseq_pieces (init d) seq) \<Longrightarrow> length p \<le> 45"
  using splitseq_loop_bound [of 45 "[]" "[]" seq]
  by (simp add: splitseq_pieces_def init_def)

lemma graphs_loop_eq:
  "graphs_loop fs d gs acc =
     acc @ map (\<lambda>(f, caption, sz). (os_path_join d [''Images'', f], caption, sz))
            (filter (\<lambda>(f, caption, sz). path_exists fs (os_path_join d [''Images'', f])) gs)"
  by (induction gs arbitrary: acc) (auto simp: Let_def)

lemma images_path:
  "\<not> startswith f ''/'' \<Longrightarrow>
   os_path_join d [''Images'', f] =
     (if d = [] \<or> last d = CHR ''/'' then d else d @ ''/'') @ ''Images/'' @ f"
  by (simp add: os_path_join_def join_step_def)

lemma split_tab_nonempty: "split_tab s \<noteq> []"
  by (induction s) (auto split: list.splits)

lemma split_tab_unfold:
  "split_tab s = takeWhile (\<lambda>c. c \<noteq> TAB) s #
     (case dropWhile (\<lambda>c. c \<noteq> TAB) s of [] \<Rightarrow> [] | t # r \<Rightarrow> split_tab r)"
proof (induction s)
  case Nil
  then show ?case by simp
next
  case (Cons c s)
  then show ?case by (cases "split_tab s") (auto simp: split_tab_nonempty)
qed

lemma split_tab_join: "str_join [TAB] (split_tab s) = s"
proof (induction s)
  case Nil
  then show ?case by simp
next
  case (Cons c s)
  show ?case
  proof (cases "split_tab s")
    case Nil
    then show ?thesis by (simp add: split_tab_nonempty)
  next
    case (Cons f fs)
    with Cons.IH show ?thesis by (cases fs) auto
  qed
qed

lemma split_tab_two: "TAB \<in> set s \<longleftrightarrow> 2 \<le> length (split_tab s)"
proof (induction s)
  case Nil
  then show ?case by simp
next
  case (Cons c s)
  then show ?case using split_tab_nonempty [of s]
    by (cases "split_tab s") (auto simp: Suc_le_eq)
qed

lemma take_two: "2 \<le> length xs \<Longrightarrow> take 2 xs = [xs ! 0, xs ! 1]"
  by (cases xs; cases "tl xs") auto

lemma map_of_dict_setitem: "map_of (dict_setitem k v d) = (map_of d)(k \<mapsto> v)"
  by (induction d) auto

lemma keys_dict_setitem:
  "map fst (dict_setitem k v d) = (if k \<in> fst ` set d then map fst d else map fst d @ [k])"
  by (induction d) force+

lemma map_of_foldl_put: "map_of (foldl dict_put [] ps) = map_of (rev ps)"
  by (induction ps rule: rev_induct) (auto simp: map_of_dict_setitem)

lemma keys_foldl_put: "map fst (foldl dict_put [] ps) = rev (remdups (rev (map fst ps)))"
proof (induction ps rule: rev_induct)
  case Nil
  then show ?case by simp
next
  case (snoc p ps)
  have "fst ` set (foldl dict_put [] ps) = fst ` set ps"
    using arg_cong [OF snoc.IH, of set] by simp
  with snoc.IH show ?case
    by (cases p) (simp add: keys_dict_setitem)
qed

lemma stats_loop_fold:
  "\<forall>row \<in> set rows. TAB \<in> set row \<Longrightarrow>
   stats_loop sl rows acc = Inr (foldl dict_put acc (map (name_value sl) rows))"
proof (induction rows arbitrary: acc)
  case Nil
  then show ?case by simp
next
  case (Cons row rows)
  then have "2 \<le> length (split_tab row)" by (simp add: split_tab_two)
  then have "take 2 (split_tab row) = [split_tab row ! 0, split_tab row ! 1]" by (rule take_two)
  with Cons show ?case by (simp add: name_value_def)
qed

lemma stats_loop_no_tab:
  "TAB \<notin> set row \<Longrightarrow> stats_loop sl (row # rest) acc = Inl ValueError"
proof -
  assume "TAB \<notin> set row"
  then have "\<not> 2 \<le> length (split_tab row)" by (simp add: split_tab_two)
  with split_tab_nonempty [of row] obtain f where "split_tab row = [f]"
    by (cases "split_tab row"; cases "tl (split_tab row)") auto
  then show ?thesis by simp
qed

lemma overrep_loop_eq:
  "overrep_loop self sl rows acc = Inr (acc @ map (overrep_record self sl) rows)"
proof (induction rows arbitrary: acc)
  case Nil
  then show ?case by simp
next
  case (Cons row rows)
  then show ?case using split_tab_nonempty [of row]
    by (cases "split_tab row") (simp_all add: overrep_record_def)
qed

lemma section_loop_outside:
  "\<forall>l \<in> set pre. \<not> startswith l (''>>'' @ name) \<Longrightarrow>
   section_loop e name (pre @ rest) False out = section_loop e name rest False out"
  by (induction pre) auto

lemma section_loop_inside:
  "\<forall>l \<in> set mid. startswith l (''>>'' @ name) \<or> \<not> startswith l ''>>END'' \<Longrightarrow>
   section_loop e name (mid @ rest) True out =
     section_loop e name rest True
       (out @ map (\<lambda>l. rstrip l [CR, LF]) (filter (\<lambda>l. \<not> startswith l (''>>'' @ name)) mid))"
  by (induction mid arbitrary: out) auto

lemma section_lines:
  assumes "\<forall>l \<in> set pre. \<not> startswith l (''>>'' @ name)"
    and "startswith start (''>>'' @ name)"
    and "\<forall>l \<in> set mid. startswith l (''>>'' @ name) \<or> \<not> startswith l ''>>END''"
    and "startswith stop ''>>END''" and "\<not> startswith stop (''>>'' @ name)"
  shows "section_loop e name (pre @ start # mid @ stop # post) False [] =
     Inr (map (\<lambda>l. rstrip l [CR, LF]) (filter (\<lambda>l. \<not> startswith l (''>>'' @ name)) mid))"
proof -
  have "section_loop e name (pre @ start # mid @ stop # post) False [] =
        section_loop e name (start # mid @ stop # post) False []"
    using assms(1) by (rule section_loop_outside)
  also have "\<dots> = section_loop e name (mid @ stop # post) True []"
    using assms(2) by simp
  also have "\<dots> = section_loop e name (stop # post) True
       ([] @ map (\<lambda>l. rstrip l [CR, LF]) (filter (\<lambda>l. \<not> startswith l (''>>'' @ name)) mid))"
    using assms(3) by (rule section_loop_inside)
  also have "\<dots> = Inr (map (\<lambda>l. rstrip l [CR, LF]) (filter (\<lambda>l. \<not> startswith l (''>>'' @ name)) mid))"
    using assms(4,5) by simp
  finally show ?thesis .
qed

lemma section_absent:
  "\<forall>l \<in> set ls. \<not> startswith l (''>>'' @ name) \<Longrightarrow> section_loop None name ls False [] = Inr []"
  using section_loop_outside [of ls name None "[]" "[]"] by simp

lemma section_loop_total: "\<exists>out'. section_loop None name ls b out = Inr out'"
  by (induction ls arbitrary: b out) auto

lemma fastqc_data_section_file:
  "fs (os_path_join (dir self) [''fastqc_data.txt'']) = Some (File s) \<Longrightarrow>
   fastqc_data_section self fs name = section_loop None name (file_lines s) False []"
  by (simp add: fastqc_data_section_def Let_def path_exists_def open_lines_def)

lemma fastqc_data_section_missing:
  "fs (os_path_join (dir self) [''fastqc_data.txt'']) = None \<Longrightarrow>
   fastqc_data_section self fs name = Inr []"
  by (simp add: fastqc_data_section_def Let_def path_exists_def)

lemma dropWhile_tab:
  "TAB \<in> set row \<Longrightarrow> \<exists>r. dropWhile (\<lambda>c. c \<noteq> TAB) row = TAB # r"
  by (induction row) auto

lemma split_tab_first: "split_tab s ! 0 = takeWhile (\<lambda>c. c \<noteq> TAB) s"
  by (induction s) (auto split: list.splits simp: split_tab_nonempty)

lemma split_tab_second:
  "TAB \<in> set s \<Longrightarrow>
   split_tab s ! 1 = takeWhile (\<lambda>c. c \<noteq> TAB) (tl (dropWhile (\<lambda>c. c \<noteq> TAB) s))"
proof (induction s)
  case Nil
  then show ?case by simp
next
  case (Cons c s)
  show ?case
  proof (cases "c = TAB")
    case True
    then show ?thesis by (simp add: split_tab_first)
  next
    case False
    with Cons.prems have "TAB \<in> set s" by simp
    from Cons.IH [OF this] False show ?thesis
      by (cases "split_tab s") (simp_all add: split_tab_nonempty)
  qed
qed

lemma name_value_fields:
  "TAB \<in> set row \<Longrightarrow>
   name_value sl row =
     (sl (takeWhile (\<lambda>c. c \<noteq> TAB) row),
      sl (takeWhile (\<lambda>c. c \<noteq> TAB) (tl (dropWhile (\<lambda>c. c \<noteq> TAB) row))))"
proof -
  assume t: "TAB \<in> set row"
  show ?thesis
    unfolding name_value_def split_tab_first split_tab_second [OF t] by (rule refl)
qed

lemma fastqc_data_section_readable:
  "fs (os_path_join (dir self) [''fastqc_data.txt'']) = Some (File s) \<Longrightarrow>
   \<exists>sec. fastqc_data_section self fs name = Inr sec"
  using section_loop_total [of name "file_lines s" False "[]"]
  by (simp add: fastqc_data_section_def Let_def path_exists_def open_lines_def)

lemma get_fastqc_summary_eq:
  "fastqc_data_section self fs ''Basic Statistics'' = Inr sec \<Longrightarrow>
   stats_loop sl (drop 1 sec) [] = Inr stats \<Longrightarrow>
   fastqc_data_section self fs ''Overrepresented sequences'' = Inr sec' \<Longrightarrow>
   get_fastqc_summary self sl fs =
     Inr (stats, map (overrep_record self sl) (take (max_overrep self) (drop 1 sec')))"
  by (simp add: get_fastqc_summary_def overrep_loop_eq take_map)

lemma get_fastqc_summary_missing:
  "fs (os_path_join (dir self) [''fastqc_data.txt'']) = None \<Longrightarrow>
   get_fastqc_summary self sl fs = Inr ([], [])"
  by (simp add: get_fastqc_summary_def fastqc_data_section_missing)

lemmas parser_eval = fastqc_data_section_def single_file_def open_lines_def path_exists_def
  os_path_join_def join_step_def init_def rstrip_def Let_def

subsection \<open>The claims about the parser\<close>

text \<open>
  C6, counterexample. In \<open>data_repeated_marker\<close> the section starts at the first line and
  the first later line that begins with \<open>>>END\<close> is the fifth; the three lines between
  them include a second start marker. The lookup returns two lines, not those three.
\<close>

theorem fastqc_data_section_between_counterexample:
  "file_lines data_repeated_marker =
     [] @ ''>>Basic Statistics\<newline>'' # [''Filename\<newline>'', ''>>Basic Statistics\<newline>'', ''Encoding\<newline>'']
        @ ''>>END_MODULE\<newline>'' # [] \<and>
   startswith ''>>Basic Statistics\<newline>'' (''>>'' @ ''Basic Statistics'') \<and>
   \<not> startswith ''Filename\<newline>'' ''>>END'' \<and>
   \<not> startswith ''>>Basic Statistics\<newline>'' ''>>END'' \<and>
   \<not> startswith ''Encoding\<newline>'' ''>>END'' \<and>
   startswith ''>>END_MODULE\<newline>'' ''>>END'' \<and>
   fastqc_data_section (init ''out'') (single_file ''out/fastqc_data.txt'' data_repeated_marker)
      ''Basic Statistics'' = Inr [''Filename'', ''Encoding''] \<and>
   [''Filename'', ''Encoding''] \<noteq>
     [rstrip ''Filename\<newline>'' [CR, LF], rstrip ''>>Basic Statistics\<newline>'' [CR, LF],
      rstrip ''Encoding\<newline>'' [CR, LF]]"
  by (simp add: parser_eval data_repeated_marker_def)

text \<open>
  C6, as amended. The lookup returns the empty list, and raises nothing, when the data
  file is absent and when the file is readable text in which no line begins with the
  start marker. When the text has a line that begins with \<open>>>SectionName\<close> and a later
  line that begins with \<open>>>END\<close> and not with \<open>>>SectionName\<close>, the lookup returns the
  lines between the first such start and the first such end, in order, with every
  trailing carriage return and line feed stripped, leaving out the lines in between that
  themselves begin with \<open>>>SectionName\<close>.
\<close>

theorem fastqc_data_section_lookup:
  "(fs (os_path_join (dir self) [''fastqc_data.txt'']) = None \<longrightarrow>
      fastqc_data_section self fs name = Inr []) \<and>
   (fs (os_path_join (dir self) [''fastqc_data.txt'']) = Some (File s) \<and>
    (\<forall>l \<in> set (file_lines s). \<not> startswith l (''>>'' @ name)) \<longrightarrow>
      fastqc_data_section self fs name = Inr []) \<and>
   (fs (os_path_join (dir self) [''fastqc_data.txt'']) = Some (File s) \<and>
    file_lines s = pre @ start # mid @ stop # post \<and>
    (\<forall>l \<in> set pre. \<not> startswith l (''>>'' @ name)) \<and>
    startswith start (''>>'' @ name) \<and>
    (\<forall>l \<in> set mid. startswith l (''>>'' @ name) \<or> \<not> startswith l ''>>END'') \<and>
    startswith stop ''>>END'' \<and> \<not> startswith stop (''>>'' @ name) \<longrightarrow>
      fastqc_data_section self fs name =
        Inr (map (\<lambda>l. rstrip l [CR, LF]) (filter (\<lambda>l. \<not> startswith l (''>>'' @ name)) mid)))"
proof -
  have a: "fastqc_data_section self fs name = Inr []"
    if "fs (os_path_join (dir self) [''fastqc_data.txt'']) = None"
    using that by (rule fastqc_data_section_missing)
  have b: "fastqc_data_section self fs name = Inr []"
    if h: "fs (os_path_join (dir self) [''fastqc_data.txt'']) = Some (File s) \<and>
        (\<forall>l \<in> set (file_lines s). \<not> startswith l (''>>'' @ name))"
  proof -
    from h have f: "fs (os_path_join (dir self) [''fastqc_data.txt'']) = Some (File s)" ..
    from h have n: "\<forall>l \<in> set (file_lines s). \<not> startswith l (''>>'' @ name)" ..
    show ?thesis
      unfolding fastqc_data_section_file [of fs self s, OF f] using n by (rule section_absent)
  qed
  have c: "fastqc_data_section self fs name =
        Inr (map (\<lambda>l. rstrip l [CR, LF]) (filter (\<lambda>l. \<not> startswith l (''>>'' @ name)) mid))"
    if h: "fs (os_path_join (dir self) [''fastqc_data.txt'']) = Some (File s) \<and>
      file_lines s = pre @ start # mid @ stop # post \<and>
      (\<forall>l \<in> set pre. \<not> startswith l (''>>'' @ name)) \<and>
      startswith start (''>>'' @ name) \<and>
      (\<forall>l \<in> set mid. startswith l (''>>'' @ name) \<or> \<not> startswith l ''>>END'') \<and>
      startswith stop ''>>END'' \<and> \<not> startswith stop (''>>'' @ name)"
  proof -
    from h have f: "fs (os_path_join (dir self) [''fastqc_data.txt'']) = Some (File s)" ..
    from h have sh: "file_lines s = pre @ start # mid @ stop # post" by (elim conjE)
    from h have "section_loop None name (pre @ start # mid @ stop # post) False [] =
       Inr (map (\<lambda>l. rstrip l [CR, LF]) (filter (\<lambda>l. \<not> startswith l (''>>'' @ name)) mid))"
      by (intro section_lines) (elim conjE, assumption)+
    then show ?thesis
      unfolding fastqc_data_section_file [of fs self s, OF f] sh .
  qed
  from a b c show ?thesis by (intro conjI impI)
qed

theorem fastqc_data_section_lookup_witness:
  "Map.empty (os_path_join (dir (init ''out'')) [''fastqc_data.txt'']) = (None :: node option) \<and>
   fastqc_data_section (init ''out'') Map.empty ''Basic Statistics'' = Inr [] \<and>
   single_file ''out/fastqc_data.txt'' data_total_sequences
      (os_path_join (dir (init ''out'')) [''fastqc_data.txt'']) = Some (File data_total_sequences) \<and>
   fastqc_data_section (init ''out'') (single_file ''out/fastqc_data.txt'' data_total_sequences)
      ''Kmer Content'' = Inr [] \<and>
   fastqc_data_section (init ''out'') (single_file ''out/fastqc_data.txt'' data_total_sequences)
      ''Basic Statistics'' = Inr [''#Measure'' @ [TAB] @ ''Value'', ''Total Sequences'' @ [TAB] @ ''1000'']"
proof -
  let ?fs = "single_file ''out/fastqc_data.txt'' data_total_sequences"
  let ?start = "''>>Basic Statistics'' @ [TAB] @ ''pass\<newline>''"
  let ?mid = "[''#Measure'' @ [TAB] @ ''Value\<newline>'', ''Total Sequences'' @ [TAB] @ ''1000\<newline>'']"
  have n: "Map.empty (os_path_join (dir (init ''out'')) [''fastqc_data.txt'']) = (None :: node option)"
    by simp
  have f: "?fs (os_path_join (dir (init ''out'')) [''fastqc_data.txt'']) = Some (File data_total_sequences)"
    by (simp add: parser_eval)
  have no: "\<forall>l \<in> set (file_lines data_total_sequences). \<not> startswith l (''>>'' @ ''Kmer Content'')"
    by (simp add: data_total_sequences_def)
  have shape: "file_lines data_total_sequences = [] @ ?start # ?mid @ ''>>END_MODULE\<newline>'' # []"
    by (simp add: data_total_sequences_def)
  have conds: "(\<forall>l \<in> set []. \<not> startswith l (''>>'' @ ''Basic Statistics'')) \<and>
    startswith ?start (''>>'' @ ''Basic Statistics'') \<and>
    (\<forall>l \<in> set ?mid. startswith l (''>>'' @ ''Basic Statistics'') \<or> \<not> startswith l ''>>END'') \<and>
    startswith ''>>END_MODULE\<newline>'' ''>>END'' \<and>
    \<not> startswith ''>>END_MODULE\<newline>'' (''>>'' @ ''Basic Statistics'')"
    by simp
  have r: "map (\<lambda>l. rstrip l [CR, LF]) (filter (\<lambda>l. \<not> startswith l (''>>'' @ ''Basic Statistics'')) ?mid)
     = [''#Measure'' @ [TAB] @ ''Value'', ''Total Sequences'' @ [TAB] @ ''1000'']"
    by (simp add: rstrip_def)
  note t1 = fastqc_data_section_lookup
    [of Map.empty "init ''out''" "''Basic Statistics''" "[]" "[]" "[]" "[]" "[]" "[]"]
  note t2 = fastqc_data_section_lookup
    [of ?fs "init ''out''" "''Kmer Content''" data_total_sequences "[]" "[]" "[]" "[]" "[]"]
  note t3 = fastqc_data_section_lookup
    [of ?fs "init ''out''" "''Basic Statistics''" data_total_sequences "[]" ?start ?mid
        "''>>END_MODULE\<newline>''" "[]"]
  have c1: "fastqc_data_section (init ''out'') Map.empty ''Basic Statistics'' = Inr []"
    using t1 [THEN conjunct1] n by (rule mp)
  have c2: "fastqc_data_section (init ''out'') ?fs ''Kmer Content'' = Inr []"
    using t2 [THEN conjunct2, THEN conjunct1] conjI [OF f no] by (rule mp)
  have "fastqc_data_section (init ''out'') ?fs ''Basic Statistics'' =
      Inr (map (\<lambda>l. rstrip l [CR, LF]) (filter (\<lambda>l. \<not> startswith l (''>>'' @ ''Basic Statistics'')) ?mid))"
    using t3 [THEN conjunct2, THEN conjunct2] conjI [OF f conjI [OF shape conds]] by (rule mp)
  then have c3: "fastqc_data_section (init ''out'') ?fs ''Basic Statistics'' =
      Inr [''#Measure'' @ [TAB] @ ''Value'', ''Total Sequences'' @ [TAB] @ ''1000'']"
    unfolding r .
  from n c1 f c2 c3 show ?thesis by (intro conjI)
qed

text \<open>
  The first line of the section is dropped whatever it is: a block that has the row and
  no header line before it gives an empty summary.
\<close>

lemma get_fastqc_summary_block_without_header:
  "get_fastqc_summary (init ''out'') id (single_file ''out/fastqc_data.txt'' data_without_header)
     = Inr ([], [])"
  by (simp add: get_fastqc_summary_def parser_eval data_without_header_def)

text \<open>
  C7, counterexample. The block of \<open>data_row_without_tab\<close> has the row
  \<open>Total Sequences\<close> with no tab in it. Splitting gives one component, the unpacking
  into name and value fails, and the extraction raises instead of building a summary.
\<close>

theorem get_fastqc_summary_row_without_tab_counterexample:
  "fastqc_data_section (init ''out'') (single_file ''out/fastqc_data.txt'' data_row_without_tab)
      ''Basic Statistics'' = Inr [''#Measure'' @ [TAB] @ ''Value'', ''Total Sequences''] \<and>
   split_tab ''Total Sequences'' = [''Total Sequences''] \<and>
   get_fastqc_summary (init ''out'') id (single_file ''out/fastqc_data.txt'' data_row_without_tab)
     = Inl ValueError"
  by (simp add: get_fastqc_summary_def parser_eval data_row_without_tab_def)

text \<open>
  C7, as amended. For every readable data file in which each line of the
  \<open>Basic Statistics\<close> section after the first contains a tab, the extraction returns, and
  its summary is what storing the rows one after the other builds: the first line of the
  section is dropped, the name of a row is the escaped text before its first tab, the
  value is the escaped text between the first tab and the second (or the end of the row),
  the names appear in the order of their first occurrence, and a name has the value of
  its last row. The file \<open>data_total_sequences\<close>, whose block is a header line followed
  by the row, gives the summary with the one entry \<open>Total Sequences\<close>, \<open>1000\<close> when
  escaping leaves these two strings as they are.
\<close>

theorem get_fastqc_summary_stats:
  "(fs (os_path_join (dir self) [''fastqc_data.txt'']) = Some (File s) \<and>
    fastqc_data_section self fs ''Basic Statistics'' = Inr sec \<and>
    (\<forall>row \<in> set (drop 1 sec). TAB \<in> set row) \<longrightarrow>
      (\<exists>stats over. get_fastqc_summary self sl fs = Inr (stats, over) \<and>
         stats = foldl dict_put [] (map (name_value sl) (drop 1 sec)) \<and>
         map_of stats = map_of (rev (map (name_value sl) (drop 1 sec))) \<and>
         map fst stats = rev (remdups (rev (map fst (map (name_value sl) (drop 1 sec))))))) \<and>
   (TAB \<in> set row \<longrightarrow>
      name_value sl row =
        (sl (takeWhile (\<lambda>c. c \<noteq> TAB) row),
         sl (takeWhile (\<lambda>c. c \<noteq> TAB) (tl (dropWhile (\<lambda>c. c \<noteq> TAB) row))))) \<and>
   (fs (os_path_join (dir self) [''fastqc_data.txt'']) = Some (File data_total_sequences) \<and>
    sl ''Total Sequences'' = ''Total Sequences'' \<and> sl ''1000'' = ''1000'' \<longrightarrow>
      get_fastqc_summary self sl fs = Inr ([(''Total Sequences'', ''1000'')], []))"
proof -
  have a: "\<exists>stats over. get_fastqc_summary self sl fs = Inr (stats, over) \<and>
         stats = foldl dict_put [] (map (name_value sl) (drop 1 sec)) \<and>
         map_of stats = map_of (rev (map (name_value sl) (drop 1 sec))) \<and>
         map fst stats = rev (remdups (rev (map fst (map (name_value sl) (drop 1 sec)))))"
    if h: "fs (os_path_join (dir self) [''fastqc_data.txt'']) = Some (File s) \<and>
           fastqc_data_section self fs ''Basic Statistics'' = Inr sec \<and>
           (\<forall>row \<in> set (drop 1 sec). TAB \<in> set row)"
  proof -
    from h have f: "fs (os_path_join (dir self) [''fastqc_data.txt'']) = Some (File s)" ..
    from h have b: "fastqc_data_section self fs ''Basic Statistics'' = Inr sec" by (elim conjE)
    from h have t: "\<forall>row \<in> set (drop 1 sec). TAB \<in> set row" by (elim conjE)
    let ?stats = "foldl dict_put [] (map (name_value sl) (drop 1 sec))"
    from t have st: "stats_loop sl (drop 1 sec) [] = Inr ?stats" by (rule stats_loop_fold)
    from fastqc_data_section_readable [of fs self s "''Overrepresented sequences''", OF f]
    obtain sec' where o: "fastqc_data_section self fs ''Overrepresented sequences'' = Inr sec'" ..
    have g: "get_fastqc_summary self sl fs =
        Inr (?stats, map (overrep_record self sl) (take (max_overrep self) (drop 1 sec')))"
      using b st o by (rule get_fastqc_summary_eq)
    have m: "map_of ?stats = map_of (rev (map (name_value sl) (drop 1 sec)))"
      by (rule map_of_foldl_put)
    have k: "map fst ?stats = rev (remdups (rev (map fst (map (name_value sl) (drop 1 sec)))))"
      by (rule keys_foldl_put)
    from g m k show ?thesis by (intro exI conjI) (assumption | rule refl)+
  qed
  have n: "name_value sl row =
        (sl (takeWhile (\<lambda>c. c \<noteq> TAB) row),
         sl (takeWhile (\<lambda>c. c \<noteq> TAB) (tl (dropWhile (\<lambda>c. c \<noteq> TAB) row))))"
    if "TAB \<in> set row"
    using that by (rule name_value_fields)
  have b: "get_fastqc_summary self sl fs = Inr ([(''Total Sequences'', ''1000'')], [])"
    if h: "fs (os_path_join (dir self) [''fastqc_data.txt'']) = Some (File data_total_sequences) \<and>
           sl ''Total Sequences'' = ''Total Sequences'' \<and> sl ''1000'' = ''1000''"
  proof -
    from h have f: "fs (os_path_join (dir self) [''fastqc_data.txt'']) = Some (File data_total_sequences)" ..
    from h have e1: "sl ''Total Sequences'' = ''Total Sequences''" by (elim conjE)
    from h have e2: "sl ''1000'' = ''1000''" by (elim conjE)
    have sec: "fastqc_data_section self fs name =
        section_loop None name (file_lines data_total_sequences) False []" for name
      using f by (rule fastqc_data_section_file)
    have s1: "fastqc_data_section self fs ''Basic Statistics'' =
        Inr [''#Measure'' @ [TAB] @ ''Value'', ''Total Sequences'' @ [TAB] @ ''1000'']"
      unfolding sec by (simp add: data_total_sequences_def rstrip_def)
    have s2: "fastqc_data_section self fs ''Overrepresented sequences'' = Inr []"
      unfolding sec by (simp add: data_total_sequences_def)
    have s3: "stats_loop sl (drop 1 [''#Measure'' @ [TAB] @ ''Value'', ''Total Sequences'' @ [TAB] @ ''1000'']) []
       = Inr [(''Total Sequences'', ''1000'')]"
      using e1 e2 by simp
    from get_fastqc_summary_eq [OF s1 s3 s2] show ?thesis by simp
  qed
  from a n b show ?thesis by (intro conjI impI)
qed

theorem get_fastqc_summary_stats_witness:
  "single_file ''out/fastqc_data.txt'' data_total_sequences
      (os_path_join (dir (init ''out'')) [''fastqc_data.txt'']) = Some (File data_total_sequences) \<and>
   fastqc_data_section (init ''out'') (single_file ''out/fastqc_data.txt'' data_total_sequences)
      ''Basic Statistics'' = Inr [''#Measure'' @ [TAB] @ ''Value'', ''Total Sequences'' @ [TAB] @ ''1000''] \<and>
   TAB \<in> set (''Total Sequences'' @ [TAB] @ ''1000'') \<and>
   id ''Total Sequences'' = ''Total Sequences'' \<and> id ''1000'' = ''1000'' \<and>
   get_fastqc_summary (init ''out'') id (single_file ''out/fastqc_data.txt'' data_total_sequences)
     = Inr ([(''Total Sequences'', ''1000'')], []) \<and>
   foldl dict_put [] (map (name_value id) [''Total Sequences'' @ [TAB] @ ''1000''])
     = [(''Total Sequences'', ''1000'')] \<and>
   name_value id (''Total Sequences'' @ [TAB] @ ''1000'') = (''Total Sequences'', ''1000'')"
proof -
  let ?fs = "single_file ''out/fastqc_data.txt'' data_total_sequences"
  let ?row = "''Total Sequences'' @ [TAB] @ ''1000''"
  let ?sec = "[''#Measure'' @ [TAB] @ ''Value'', ?row]"
  have f: "?fs (os_path_join (dir (init ''out'')) [''fastqc_data.txt'']) = Some (File data_total_sequences)"
    by (simp add: parser_eval)
  have "fastqc_data_section (init ''out'') ?fs ''Basic Statistics'' =
      section_loop None ''Basic Statistics'' (file_lines data_total_sequences) False []"
    using f by (rule fastqc_data_section_file)
  then have s: "fastqc_data_section (init ''out'') ?fs ''Basic Statistics'' = Inr ?sec"
    by (simp add: data_total_sequences_def rstrip_def)
  have t: "\<forall>row \<in> set (drop 1 ?sec). TAB \<in> set row" by simp
  have tr: "TAB \<in> set ?row" by simp
  have i1: "id ''Total Sequences'' = ''Total Sequences''" by simp
  have i2: "id ''1000'' = ''1000''" by simp
  note inst = get_fastqc_summary_stats [of ?fs "init ''out''" data_total_sequences ?sec id ?row]
  have g: "get_fastqc_summary (init ''out'') id ?fs = Inr ([(''Total Sequences'', ''1000'')], [])"
    using inst [THEN conjunct2, THEN conjunct2] conjI [OF f conjI [OF i1 i2]] by (rule mp)
  have "\<exists>stats over. get_fastqc_summary (init ''out'') id ?fs = Inr (stats, over) \<and>
         stats = foldl dict_put [] (map (name_value id) (drop 1 ?sec)) \<and>
         map_of stats = map_of (rev (map (name_value id) (drop 1 ?sec))) \<and>
         map fst stats = rev (remdups (rev (map fst (map (name_value id) (drop 1 ?sec)))))"
    using inst [THEN conjunct1] conjI [OF f conjI [OF s t]] by (rule mp)
  then obtain stats over where
    r: "get_fastqc_summary (init ''out'') id ?fs = Inr (stats, over)"
       "stats = foldl dict_put [] (map (name_value id) (drop 1 ?sec))" by blast
  from r(1) g have "stats = [(''Total Sequences'', ''1000'')]" by simp
  with r(2) have p: "foldl dict_put [] (map (name_value id) [?row]) = [(''Total Sequences'', ''1000'')]"
    by simp
  have "name_value id ?row =
        (id (takeWhile (\<lambda>c. c \<noteq> TAB) ?row),
         id (takeWhile (\<lambda>c. c \<noteq> TAB) (tl (dropWhile (\<lambda>c. c \<noteq> TAB) ?row))))"
    using inst [THEN conjunct2, THEN conjunct1] tr by (rule mp)
  then have nv: "name_value id ?row = (''Total Sequences'', ''1000'')" by simp
  from f s tr i1 i2 g p nv show ?thesis by (intro conjI)
qed



text \<open>
  C9. The graphs returned are the entries of the fixed list of eight whose file
  \<open>base_dir/Images/filename\<close>, built as \<^verbatim>\<open>os.path.join\<close> builds it, exists, in the order
  of that list and with the file name replaced by the path; an entry whose file is
  missing is left out and nothing is raised. With three of the eight files present,
  those three come back in the order of the list.
\<close>

theorem get_fastqc_graphs_existing:
  "get_fastqc_graphs self fs =
     map (\<lambda>(f, caption, sz). (os_path_join (dir self) [''Images'', f], caption, sz))
       (filter (\<lambda>(f, caption, sz). path_exists fs (os_path_join (dir self) [''Images'', f])) GRAPHS) \<and>
   length GRAPHS = 8 \<and>
   list_all (\<lambda>(f, caption, sz). os_path_join (dir self) [''Images'', f] =
       (if dir self = [] \<or> last (dir self) = CHR ''/'' then dir self else dir self @ ''/'')
         @ ''Images/'' @ f) GRAPHS \<and>
   get_fastqc_graphs (init ''out'') three_images =
     [(''out/Images/per_base_quality.png'', [], 1),
      (''out/Images/kmer_profiles.png'', [], 85 / 100),
      (''out/Images/per_sequence_quality.png'', [], 1)]"
proof -
  have a: "get_fastqc_graphs self fs =
     map (\<lambda>(f, caption, sz). (os_path_join (dir self) [''Images'', f], caption, sz))
       (filter (\<lambda>(f, caption, sz). path_exists fs (os_path_join (dir self) [''Images'', f])) GRAPHS)"
    by (simp add: get_fastqc_graphs_def graphs_loop_eq)
  have b: "length GRAPHS = 8" by (simp add: GRAPHS_def)
  have c: "list_all (\<lambda>(f, caption, sz). os_path_join (dir self) [''Images'', f] =
       (if dir self = [] \<or> last (dir self) = CHR ''/'' then dir self else dir self @ ''/'')
         @ ''Images/'' @ f) GRAPHS"
    by (simp add: GRAPHS_def images_path)
  have d: "get_fastqc_graphs (init ''out'') three_images =
     [(''out/Images/per_base_quality.png'', [], 1),
      (''out/Images/kmer_profiles.png'', [], 85 / 100),
      (''out/Images/per_sequence_quality.png'', [], 1)]"
    by (simp add: get_fastqc_graphs_def GRAPHS_def three_images_def parser_eval)
  from a b c d show ?thesis by (intro conjI)
qed

text \<open>
  C10. Wrapping loses nothing: for every string, the result of \<^verbatim>\<open>_splitseq\<close> is the
  pieces of its loop joined with single spaces, every piece has at most 45 characters,
  and the pieces concatenated in order are the string itself.
\<close>

theorem splitseq_lossless:
  "splitseq (init d) seq = str_join '' '' (splitseq_pieces (init d) seq) \<and>
   concat (splitseq_pieces (init d) seq) = seq \<and>
   (p \<in> set (splitseq_pieces (init d) seq) \<longrightarrow> length p \<le> 45)"
proof -
  have a: "splitseq (init d) seq = str_join '' '' (splitseq_pieces (init d) seq)"
    by (simp add: splitseq_def)
  have b: "concat (splitseq_pieces (init d) seq) = seq"
    by (rule splitseq_pieces_concat)
  have c: "length p \<le> 45" if "p \<in> set (splitseq_pieces (init d) seq)"
    using that by (rule splitseq_pieces_bound)
  from a b c show ?thesis by (intro conjI impI)
qed

theorem splitseq_lossless_witness:
  "splitseq_pieces (init ''out'') (replicate 50 (CHR ''A'')) =
     [replicate 45 (CHR ''A''), replicate 5 (CHR ''A'')] \<and>
   replicate 45 (CHR ''A'') \<in> set (splitseq_pieces (init ''out'') (replicate 50 (CHR ''A''))) \<and>
   length (replicate 45 (CHR ''A'')) \<le> 45 \<and>
   splitseq (init ''out'') (replicate 50 (CHR ''A'')) =
     replicate 45 (CHR ''A'') @ '' '' @ replicate 5 (CHR ''A'') \<and>
   concat (splitseq_pieces (init ''out'') (replicate 50 (CHR ''A''))) = replicate 50 (CHR ''A'')"
proof -
  let ?seq = "replicate 50 (CHR ''A'')"
  let ?p = "replicate 45 (CHR ''A'')"
  have e: "splitseq_pieces (init ''out'') ?seq = [?p, replicate 5 (CHR ''A'')]"
    by (simp add: splitseq_pieces_def init_def eval_nat_numeral)
  then have m: "?p \<in> set (splitseq_pieces (init ''out'') ?seq)" by simp
  note inst = splitseq_lossless [of "''out''" ?seq ?p]
  have l: "length ?p \<le> 45"
    using inst [THEN conjunct2, THEN conjunct2] m by (rule mp)
  have "splitseq (init ''out'') ?seq = str_join '' '' (splitseq_pieces (init ''out'') ?seq)"
    using inst by (rule conjunct1)
  then have j: "splitseq (init ''out'') ?seq = ?p @ '' '' @ replicate 5 (CHR ''A'')"
    unfolding e by simp
  have c: "concat (splitseq_pieces (init ''out'') ?seq) = ?seq"
    using inst [THEN conjunct2] by (rule conjunct1)
  from e m l j c show ?thesis by (intro conjI)
qed

end
